theory Spec2Isabelle
  imports Main
begin

section \<open>Settled results and the transform\<close>

text \<open>
  \<^verbatim>\<open>PromiseSettledResult<T>\<close> of \<^verbatim>\<open>src/lib.ts\<close>: the record with
  \<^verbatim>\<open>status: 'fulfilled'\<close> and a value, or with \<^verbatim>\<open>status: 'rejected'\<close> and a reason.
\<close>

datatype ('r, 'e) PromiseSettledResult = Fulfilled 'r | Rejected 'e

text \<open>
  The promise that a call of the transform returns, described by the way it settles:
  it resolves with a value or rejects with a reason. When it settles is not part of the
  promise; it is the business of the schedule below. A promise that never settles is
  outside the model.
\<close>

datatype ('r, 'e) Promise = Resolves 'r | Rejects 'e

text \<open>
  \<^verbatim>\<open>AsyncMapFn<T, R>\<close>: a function of the value, its index and the array. A call either
  throws before it returns (\<open>Inl\<close> of the thrown value) or returns a promise (\<open>Inr\<close>).
\<close>

type_synonym ('t, 'r, 'e) AsyncMapFn = "'t \<Rightarrow> nat \<Rightarrow> 't list \<Rightarrow> 'e + ('r, 'e) Promise"

text \<open>\<^verbatim>\<open>await p\<close>: the value of a resolved promise; a rejected one throws its reason.\<close>

fun await :: "('r, 'e) Promise \<Rightarrow> 'e + 'r" where
  "await (Resolves v) = Inr v"
| "await (Rejects reason) = Inl reason"

text \<open>
  \<^verbatim>\<open>runMapFn\<close> (lines 28-45). The inner \<open>case\<close> is the \<^verbatim>\<open>try\<close> block: the call of
  \<^verbatim>\<open>mapFn\<close>, the \<^verbatim>\<open>await\<close> and the construction of the fulfilled record, each of the
  first two able to throw. The outer \<open>case\<close> is the \<^verbatim>\<open>catch\<close> clause. The result is what
  the promise of \<^verbatim>\<open>runMapFn\<close> settles with: \<open>Inr\<close> when it resolves, \<open>Inl\<close> if it
  were to reject.
\<close>

definition runMapFn ::
  "('t, 'r, 'e) AsyncMapFn \<Rightarrow> 't \<Rightarrow> nat \<Rightarrow> 't list \<Rightarrow> 'e + ('r, 'e) PromiseSettledResult" where
  "runMapFn mapFn val index array =
     (case (case mapFn val index array of
              Inl thrown \<Rightarrow> Inl thrown
            | Inr p \<Rightarrow> (case await p of
                           Inl thrown \<Rightarrow> Inl thrown
                         | Inr v \<Rightarrow> Inr (Fulfilled v))) of
        Inr settled \<Rightarrow> Inr settled
      | Inl reason \<Rightarrow> Inr (Rejected reason))"

section \<open>The generator\<close>

text \<open>
  The control state of the generator object made by \<^verbatim>\<open>mapParams\<close> (lines 83-88): not yet
  started, suspended at the \<^verbatim>\<open>yield\<close> with the loop variable \<^verbatim>\<open>index\<close>, or completed.
\<close>

datatype genState = SuspendedStart | SuspendedYield nat | Completed

definition mapParams :: "'t list \<Rightarrow> genState" where
  "mapParams array = SuspendedStart"

text \<open>
  \<^verbatim>\<open>gen.next()\<close>: runs the body up to the next \<^verbatim>\<open>yield\<close>. Started, it sets
  \<^verbatim>\<open>index = 0\<close>; resumed, it does \<^verbatim>\<open>index++\<close>; then it tests
  \<^verbatim>\<open>index < array.length\<close> and yields \<^verbatim>\<open>[array[index], index, array]\<close> or completes.
  A completed generator answers every later call with \<^verbatim>\<open>done\<close> (\<open>None\<close>).
\<close>

fun mapParams_next :: "'t list \<Rightarrow> genState \<Rightarrow> ('t \<times> nat \<times> 't list) option \<times> genState" where
  "mapParams_next array SuspendedStart =
     (if 0 < length array then (Some (array ! 0, 0, array), SuspendedYield 0)
      else (None, Completed))"
| "mapParams_next array (SuspendedYield index) =
     (if index + 1 < length array
      then (Some (array ! (index + 1), index + 1, array), SuspendedYield (index + 1))
      else (None, Completed))"
| "mapParams_next array Completed = (None, Completed)"

text \<open>The answers of \<open>k\<close> successive calls of \<^verbatim>\<open>next()\<close>.\<close>

fun nexts :: "'t list \<Rightarrow> nat \<Rightarrow> genState \<Rightarrow> ('t \<times> nat \<times> 't list) option list" where
  "nexts array 0 g = []"
| "nexts array (Suc k) g =
     (case mapParams_next array g of (item, g') \<Rightarrow> item # nexts array k g')"

section \<open>The state of one call of mapAllSettled\<close>

text \<open>
  The labels of lines 65 and 68 are template literals with \<^verbatim>\<open>${currentValue}\<close> in them:
  the item is converted to a string, and the conversion throws for an item that has no
  string form (a \<^verbatim>\<open>Symbol\<close>, an object without \<^verbatim>\<open>toString\<close> or with one that throws).
  The conversion of the items is a parameter of the model: \<open>Inr\<close> of the string, or
  \<open>Inl\<close> of what it throws.
\<close>

type_synonym ('t, 'e) ToString = "'t \<Rightarrow> 'e + string"

text \<open>
  What the code prints: \<^verbatim>\<open>console.time\<close>, \<^verbatim>\<open>console.timeEnd\<close> and
  \<^verbatim>\<open>console.log\<close>, with the data of each label (the clock readings are left out).
\<close>

datatype event =
    TimeWorker nat
  | TimeItem nat nat string
  | TimeEndItem nat nat string
  | LogWorker nat nat
  | LogInitialized int

text \<open>
  A worker (lines 55-75) is a coroutine. It is suspended at the \<^verbatim>\<open>await\<close> of line 66,
  holding its \<^verbatim>\<open>id\<close>, \<^verbatim>\<open>processed\<close>, \<^verbatim>\<open>currentValue\<close>, \<^verbatim>\<open>index\<close> and the outcome
  of the promise of \<^verbatim>\<open>runMapFn\<close> it waits for; or it has returned; or it has thrown.
\<close>

datatype ('t, 'r, 'e) worker =
    Awaiting nat nat 't nat "'e + ('r, 'e) PromiseSettledResult"
  | Returned
  | Threw 'e

text \<open>
  The objects of one call. A JavaScript array may have holes: a slot is \<open>None\<close> when
  it was never written. \<open>gen\<close> is \<open>None\<close> until \<^verbatim>\<open>mapParams(arr)\<close> has made the generator.
\<close>

record ('t, 'r, 'e) state =
  arr :: "'t list"
  gen :: "genState option"
  result :: "('r, 'e) PromiseSettledResult option list"
  workers :: "('t, 'r, 'e) worker option list"
  console :: "event list"

text \<open>
  \<^verbatim>\<open>a[index] = v\<close> on a JavaScript array: an index at or past the length extends the
  array, leaving holes in between.
\<close>

definition array_set :: "'a option list \<Rightarrow> nat \<Rightarrow> 'a \<Rightarrow> 'a option list" where
  "array_set xs index v =
     (if index < length xs then xs[index := Some v]
      else xs @ replicate (index - length xs) None @ [Some v])"

section \<open>The worker\<close>

text \<open>
  One turn of the \<^verbatim>\<open>for ... of gen\<close> loop of the worker, from \<^verbatim>\<open>gen.next()\<close> to the
  next suspension. When the generator is done, the loop ends, the worker logs its count
  and returns. Otherwise it builds the label of line 65: if the item has no string form
  this throws, outside any \<^verbatim>\<open>try\<close>, so the \<^verbatim>\<open>for ... of\<close> closes the generator and the
  promise of the worker rejects; else the worker starts the timer, calls \<^verbatim>\<open>runMapFn\<close>
  and suspends at the \<^verbatim>\<open>await\<close>. (A worker only exists after line 108 has made the
  generator; the \<open>None\<close> branch stands for a generator that is not there and is not
  reached.)
\<close>

definition worker_loop ::
  "('t, 'e) ToString \<Rightarrow> ('t, 'r, 'e) AsyncMapFn \<Rightarrow> nat \<Rightarrow> nat \<Rightarrow> ('t, 'r, 'e) state
     \<Rightarrow> ('t, 'r, 'e) worker \<times> ('t, 'r, 'e) state" where
  "worker_loop toStr mapFn wid processed s =
     (case gen s of
        None \<Rightarrow> (Returned, s)
      | Some g \<Rightarrow>
          (case mapParams_next (arr s) g of
             (None, g') \<Rightarrow>
               (Returned, s\<lparr>gen := Some g', console := console s @ [LogWorker wid processed]\<rparr>)
           | (Some (currentValue, index, array), g') \<Rightarrow>
               (case toStr currentValue of
                  Inl thrown \<Rightarrow> (Threw thrown, s\<lparr>gen := Some Completed\<rparr>)
                | Inr label \<Rightarrow>
                    (Awaiting wid processed currentValue index
                       (runMapFn mapFn currentValue index array),
                     s\<lparr>gen := Some g', console := console s @ [TimeItem wid index label]\<rparr>))))"

text \<open>The call \<^verbatim>\<open>worker(id, gen, mapFn, result)\<close>, run up to its first suspension.\<close>

definition worker ::
  "('t, 'e) ToString \<Rightarrow> ('t, 'r, 'e) AsyncMapFn \<Rightarrow> nat \<Rightarrow> ('t, 'r, 'e) state
     \<Rightarrow> ('t, 'r, 'e) worker \<times> ('t, 'r, 'e) state" where
  "worker toStr mapFn wid s =
     worker_loop toStr mapFn wid 0 (s\<lparr>console := console s @ [TimeWorker wid]\<rparr>)"

text \<open>
  The worker in slot \<open>k\<close> of \<^verbatim>\<open>workers\<close> throws inside its loop: the \<^verbatim>\<open>for ... of\<close>
  closes the generator and the worker's own promise rejects.
\<close>

definition worker_throws ::
  "nat \<Rightarrow> 'e \<Rightarrow> ('t, 'r, 'e) state \<Rightarrow> ('t, 'r, 'e) state" where
  "worker_throws k thrown s =
     s\<lparr>gen := map_option (\<lambda>g. Completed) (gen s),
       workers := (workers s)[k := Some (Threw thrown)]\<rparr>"

text \<open>
  The worker in slot \<open>k\<close> of \<^verbatim>\<open>workers\<close> resumes after its \<^verbatim>\<open>await\<close>. If the awaited
  promise rejected, the \<^verbatim>\<open>await\<close> throws. If it resolved, the worker writes
  \<^verbatim>\<open>result[index]\<close>, counts, builds the label of line 68 (which throws as that of
  line 65 does), stops the timer and takes the next turn of the loop.
\<close>

definition resume ::
  "('t, 'e) ToString \<Rightarrow> ('t, 'r, 'e) AsyncMapFn \<Rightarrow> nat \<Rightarrow> ('t, 'r, 'e) state
     \<Rightarrow> ('t, 'r, 'e) state" where
  "resume toStr mapFn k s =
     (if k < length (workers s) then
        (case workers s ! k of
           Some (Awaiting wid processed currentValue index outcome) \<Rightarrow>
             (case outcome of
                Inl thrown \<Rightarrow> worker_throws k thrown s
              | Inr settled \<Rightarrow>
                  (case toStr currentValue of
                     Inl thrown \<Rightarrow>
                       worker_throws k thrown (s\<lparr>result := array_set (result s) index settled\<rparr>)
                   | Inr label \<Rightarrow>
                       (case worker_loop toStr mapFn wid (processed + 1)
                               (s\<lparr>result := array_set (result s) index settled,
                                  console := console s @ [TimeEndItem wid index label]\<rparr>) of
                          (w, s') \<Rightarrow> s'\<lparr>workers := (workers s')[k := Some w]\<rparr>)))
         | _ \<Rightarrow> s)
      else s)"

section \<open>The scheduler\<close>

text \<open>
  The runtime runs one coroutine at a time and switches only at an \<^verbatim>\<open>await\<close>. Which
  suspended worker resumes next depends on when the promises of the transform settle,
  which the code does not control: the model takes it from a schedule, a list of
  numbers, each choosing among the workers suspended at that moment. Every order of
  completion is some schedule. When the list runs out the first suspended worker is taken.
\<close>

fun is_awaiting :: "('t, 'r, 'e) worker option \<Rightarrow> bool" where
  "is_awaiting (Some (Awaiting wid processed currentValue index outcome)) = True"
| "is_awaiting w = False"

definition awaiting :: "('t, 'r, 'e) worker option list \<Rightarrow> nat list" where
  "awaiting ws = filter (\<lambda>k. is_awaiting (ws ! k)) [0..<length ws]"

fun pick :: "nat list \<Rightarrow> nat \<Rightarrow> nat" where
  "pick [] n = 0"
| "pick (c # cs) n = c mod n"

text \<open>The reason of the first rejected promise in \<^verbatim>\<open>workers\<close>, if there is one.\<close>

fun rejected :: "('t, 'r, 'e) worker option list \<Rightarrow> 'e option" where
  "rejected [] = None"
| "rejected (Some (Threw reason) # ws) = Some reason"
| "rejected (w # ws) = rejected ws"

text \<open>How many items the generator has still to hand out.\<close>

fun remaining :: "nat \<Rightarrow> genState option \<Rightarrow> nat" where
  "remaining n None = 0"
| "remaining n (Some SuspendedStart) = n"
| "remaining n (Some (SuspendedYield index)) = n - (index + 1)"
| "remaining n (Some Completed) = 0"

subsection \<open>The scheduler's loop ends\<close>

lemma length_filter_update_less:
  "k < length ws \<Longrightarrow> P (ws ! k) \<Longrightarrow> \<not> P v \<Longrightarrow> length (filter P (ws[k := v])) < length (filter P ws)"
proof (induction ws arbitrary: k)
  case Nil then show ?case by simp
next
  case (Cons w ws)
  show ?case
  proof (cases k)
    case 0
    with Cons.prems show ?thesis by simp
  next
    case (Suc j)
    with Cons.prems Cons.IH [of j] show ?thesis by simp
  qed
qed

lemma length_filter_update_same:
  "k < length ws \<Longrightarrow> P (ws ! k) \<Longrightarrow> P v \<Longrightarrow> length (filter P (ws[k := v])) = length (filter P ws)"
proof (induction ws arbitrary: k)
  case Nil then show ?case by simp
next
  case (Cons w ws)
  show ?case
  proof (cases k)
    case 0
    with Cons.prems show ?thesis by simp
  next
    case (Suc j)
    with Cons.prems Cons.IH [of j] show ?thesis by simp
  qed
qed

lemma awaiting_count: "length (awaiting ws) = length (filter is_awaiting ws)"
proof -
  have "filter is_awaiting ws = map (\<lambda>k. ws ! k) (awaiting ws)"
    unfolding awaiting_def
    by (subst (1) map_nth [symmetric]) (simp only: filter_map comp_def)
  then show ?thesis by simp
qed

lemma awaiting_mem: "k \<in> set (awaiting ws) \<longleftrightarrow> k < length ws \<and> is_awaiting (ws ! k)"
  by (auto simp: awaiting_def)

text \<open>
  The measure for the scheduler's loop: each resumption either takes an item from the
  generator or ends a worker.
\<close>

definition weight :: "('t, 'r, 'e) state \<Rightarrow> nat" where
  "weight s = remaining (length (arr s)) (gen s) + length (awaiting (workers s))"

lemma worker_loop_arr: "worker_loop toStr mapFn wid p s = (w, s') \<Longrightarrow> arr s' = arr s \<and> workers s' = workers s"
  by (auto simp: worker_loop_def split: option.splits prod.splits sum.splits)

lemma next_remaining:
  "mapParams_next a g = (x, g') \<Longrightarrow>
     (x \<noteq> None \<longrightarrow> remaining (length a) (Some g') < remaining (length a) (Some g)) \<and>
     remaining (length a) (Some g') \<le> remaining (length a) (Some g)"
  by (cases g) (auto split: if_splits)

lemma worker_loop_remaining:
  "worker_loop toStr mapFn wid p s = (w, s') \<Longrightarrow>
     (is_awaiting (Some w) \<longrightarrow> remaining (length (arr s)) (gen s') < remaining (length (arr s)) (gen s)) \<and>
     remaining (length (arr s)) (gen s') \<le> remaining (length (arr s)) (gen s)"
proof (cases "gen s")
  case None
  assume "worker_loop toStr mapFn wid p s = (w, s')"
  with None show ?thesis by (auto simp: worker_loop_def)
next
  case (Some g)
  assume wl: "worker_loop toStr mapFn wid p s = (w, s')"
  obtain x g' where n: "mapParams_next (arr s) g = (x, g')"
    by (cases "mapParams_next (arr s) g") auto
  from next_remaining [OF n] wl Some n show ?thesis
    by (cases x) (auto simp: worker_loop_def split: sum.splits)
qed

lemma worker_throws_weight:
  assumes "k < length (workers s)" and "is_awaiting (workers s ! k)"
  shows "weight (worker_throws k thrown (s\<lparr>result := r\<rparr>)) < weight s"
proof -
  have "remaining (length (arr s)) (map_option (\<lambda>g. Completed) (gen s)) = 0"
    by (cases "gen s") auto
  with assms show ?thesis
    using length_filter_update_less [of k "workers s" is_awaiting "Some (Threw thrown)"]
    by (simp add: worker_throws_def weight_def awaiting_count)
qed

lemma resume_weight:
  assumes "k \<in> set (awaiting (workers s))"
  shows "weight (resume toStr mapFn k s) < weight s"
proof -
  from assms have k: "k < length (workers s)" and a: "is_awaiting (workers s ! k)"
    by (simp_all add: awaiting_mem)
  from a obtain wid p v i outcome where w: "workers s ! k = Some (Awaiting wid p v i outcome)"
    by (cases "workers s ! k" rule: is_awaiting.cases) auto
  show ?thesis
  proof (cases outcome)
    case (Inl thrown)
    from worker_throws_weight [OF k a, of thrown "result s"] k w Inl show ?thesis
      by (simp add: resume_def)
  next
    case (Inr settled)
    show ?thesis
    proof (cases "toStr v")
      case (Inl thrown)
      from worker_throws_weight [OF k a, of thrown "array_set (result s) i settled"] k w Inr Inl
      show ?thesis by (simp add: resume_def)
    next
      case label: (Inr label)
      let ?s1 = "s\<lparr>result := array_set (result s) i settled,
                  console := console s @ [TimeEndItem wid i label]\<rparr>"
      obtain w' s' where wl: "worker_loop toStr mapFn wid (p + 1) ?s1 = (w', s')"
        by (cases "worker_loop toStr mapFn wid (p + 1) ?s1") auto
      from worker_loop_arr [OF wl] have fr: "arr s' = arr s" "workers s' = workers s" by simp_all
      from worker_loop_remaining [OF wl]
      have rem: "is_awaiting (Some w') \<longrightarrow> remaining (length (arr s)) (gen s') < remaining (length (arr s)) (gen s)"
        "remaining (length (arr s)) (gen s') \<le> remaining (length (arr s)) (gen s)" by simp_all
      have res: "resume toStr mapFn k s = s'\<lparr>workers := (workers s)[k := Some w']\<rparr>"
        using k w Inr label wl fr by (simp add: resume_def)
      show ?thesis
      proof (cases "is_awaiting (Some w')")
        case True
        with rem k a length_filter_update_same [of k "workers s" is_awaiting "Some w'"]
        show ?thesis by (simp add: res weight_def awaiting_count fr)
      next
        case False
        with rem k a length_filter_update_less [of k "workers s" is_awaiting "Some w'"]
        show ?thesis by (simp add: res weight_def awaiting_count fr)
      qed
    qed
  qed
qed

lemma pick_less: "0 < n \<Longrightarrow> pick sched n < n"
  by (cases sched) auto

text \<open>Any suspended worker can be the next to resume: some schedule chooses it.\<close>

lemma pick_any:
  assumes "k \<in> set (awaiting ws)"
  shows "\<exists>c. awaiting ws ! pick (c # cs) (length (awaiting ws)) = k"
proof -
  from assms obtain j where "j < length (awaiting ws)" "awaiting ws ! j = k"
    by (auto simp: in_set_conv_nth)
  then have "awaiting ws ! pick (j # cs) (length (awaiting ws)) = k" by simp
  then show ?thesis ..
qed

text \<open>
  \<^verbatim>\<open>await Promise.all(workers)\<close> (line 119), together with the event loop that runs
  the workers meanwhile. \<^verbatim>\<open>Promise.all\<close> rejects as soon as one of the promises has
  rejected, with its reason, and resolves once none is pending; a hole of the array counts
  as a resolved promise. While a worker is suspended, the schedule chooses the one to
  resume.
\<close>

function promiseAll ::
  "('t, 'e) ToString \<Rightarrow> ('t, 'r, 'e) AsyncMapFn \<Rightarrow> nat list \<Rightarrow> ('t, 'r, 'e) state \<Rightarrow> ('e + unit) \<times> ('t, 'r, 'e) state" where
  "promiseAll toStr mapFn sched s =
     (case rejected (workers s) of
        Some reason \<Rightarrow> (Inl reason, s)
      | None \<Rightarrow>
          (if awaiting (workers s) = [] then (Inr (), s)
           else promiseAll toStr mapFn (tl sched)
                  (resume toStr mapFn (awaiting (workers s) ! pick sched (length (awaiting (workers s)))) s)))"
  by pat_completeness auto
termination
proof (relation "measure (\<lambda>(toStr, mapFn, sched, s). weight s)")
  show "wf (measure (\<lambda>(toStr, mapFn, sched, s). weight s))" by simp
next
  fix toStr :: "('t, 'e) ToString" and mapFn :: "('t, 'r, 'e) AsyncMapFn" and sched :: "nat list" and s :: "('t, 'r, 'e) state"
  assume "awaiting (workers s) \<noteq> []"
  then have "awaiting (workers s) ! pick sched (length (awaiting (workers s))) \<in> set (awaiting (workers s))"
    by (simp add: pick_less)
  then show "((toStr, mapFn, tl sched, resume toStr mapFn (awaiting (workers s) ! pick sched (length (awaiting (workers s)))) s),
              (toStr, mapFn, sched, s)) \<in> measure (\<lambda>(toStr, mapFn, sched, s). weight s)"
    by (simp add: resume_weight)
qed

declare promiseAll.simps [simp del]

section \<open>mapAllSettled\<close>

text \<open>
  What a call can fail with: the \<^verbatim>\<open>RangeError\<close> ("Invalid array length") of
  \<^verbatim>\<open>new Array(n)\<close> for a negative \<^verbatim>\<open>n\<close>, or a reason that \<^verbatim>\<open>Promise.all\<close>
  rejected with.
\<close>

datatype 'e error = RangeError | Uncaught 'e

text \<open>
  The loop of lines 113-115: \<^verbatim>\<open>workers.push(worker(i, gen, mapFn, result))\<close> for
  \<^verbatim>\<open>i\<close> below \<^verbatim>\<open>concurrentLimit\<close>. Each call of \<^verbatim>\<open>worker\<close> runs to its first
  suspension before the next one starts.
\<close>

function launch ::
  "('t, 'e) ToString \<Rightarrow> ('t, 'r, 'e) AsyncMapFn \<Rightarrow> nat \<Rightarrow> int \<Rightarrow> ('t, 'r, 'e) state \<Rightarrow> ('t, 'r, 'e) state" where
  "launch toStr mapFn i concurrentLimit s =
     (if int i < concurrentLimit then
        (case worker toStr mapFn i s of
           (w, s') \<Rightarrow> launch toStr mapFn (i + 1) concurrentLimit (s'\<lparr>workers := workers s' @ [Some w]\<rparr>))
      else s)"
  by pat_completeness auto
termination
  by (relation "measure (\<lambda>(toStr, mapFn, i, concurrentLimit, s). nat (concurrentLimit - int i))") auto

declare launch.simps [simp del]

text \<open>
  \<^verbatim>\<open>mapAllSettled\<close> (lines 97-122), with the schedule and the string conversion of
  the items as extra arguments. It
  gives what the returned promise settles with (\<open>Inr\<close> of the returned array, or \<open>Inl\<close>
  of the error it rejects with) and the state it leaves. \<^verbatim>\<open>concurrentLimit\<close> is an
  integer here (a \<^verbatim>\<open>number\<close> that is not an integer is outside the model); the default
  of the parameter is \<open>default_concurrentLimit\<close>.
  \<^verbatim>\<open>new Array(concurrentLimit)\<close> makes an array of that many holes, or throws for a
  negative length; the workers are then pushed behind the holes.
\<close>

definition default_concurrentLimit :: "'t list \<Rightarrow> int" where
  "default_concurrentLimit array = int (length array)"

definition mapAllSettled_run ::
  "nat list \<Rightarrow> ('t, 'e) ToString \<Rightarrow> 't list \<Rightarrow> ('t, 'r, 'e) AsyncMapFn \<Rightarrow> int
     \<Rightarrow> ('e error + ('r, 'e) PromiseSettledResult option list) \<times> ('t, 'r, 'e) state" where
  "mapAllSettled_run sched toStr array mapFn concurrentLimit =
     (let s0 = \<lparr>arr = array, gen = None, result = [], workers = [], console = []\<rparr> in
      if length (arr s0) = 0 then (Inr (result s0), s0)
      else
        let s1 = s0\<lparr>gen := Some (mapParams (arr s0))\<rparr>;
            concurrentLimit = min concurrentLimit (int (length (arr s1)))
        in if concurrentLimit < 0 then (Inl RangeError, s1)
           else
             let s2 = launch toStr mapFn 0 concurrentLimit
                        (s1\<lparr>workers := replicate (nat concurrentLimit) None\<rparr>);
                 s3 = s2\<lparr>console := console s2 @ [LogInitialized concurrentLimit]\<rparr>
             in case promiseAll toStr mapFn sched s3 of
                  (Inl reason, s4) \<Rightarrow> (Inl (Uncaught reason), s4)
                | (Inr u, s4) \<Rightarrow> (Inr (result s4), s4))"

definition mapAllSettled ::
  "nat list \<Rightarrow> ('t, 'e) ToString \<Rightarrow> 't list \<Rightarrow> ('t, 'r, 'e) AsyncMapFn \<Rightarrow> int
     \<Rightarrow> 'e error + ('r, 'e) PromiseSettledResult option list" where
  "mapAllSettled sched toStr array mapFn concurrentLimit =
     fst (mapAllSettled_run sched toStr array mapFn concurrentLimit)"

section \<open>The unbounded settle-all, for comparison\<close>

text \<open>
  The record that \<^verbatim>\<open>Promise.allSettled\<close> gives for one call of the transform:
  fulfilled with the value its promise resolved with, or rejected with the reason its
  promise rejected with. A call that throws counts as rejected with the thrown value, as
  it is for an \<^verbatim>\<open>async\<close> function.
\<close>

fun settle :: "'e + ('r, 'e) Promise \<Rightarrow> ('r, 'e) PromiseSettledResult" where
  "settle (Inr (Resolves v)) = Fulfilled v"
| "settle (Inr (Rejects reason)) = Rejected reason"
| "settle (Inl thrown) = Rejected thrown"

text \<open>
  The settle-all with no bound on the parallelism (the demo's
  \<^verbatim>\<open>Promise.allSettled(urls.map(fetchTodoTitle))\<close>): the transform applied to every
  item with its index and the array, each outcome settled in its place.
\<close>

definition allSettled_map :: "('t, 'r, 'e) AsyncMapFn \<Rightarrow> 't list \<Rightarrow> ('r, 'e) PromiseSettledResult list" where
  "allSettled_map mapFn array = map (\<lambda>i. settle (mapFn (array ! i) i array)) [0..<length array]"

text \<open>
  \<^verbatim>\<open>array.map(f)\<close>: the direct map of a function of the value, the index and the
  array over the array.
\<close>

definition array_map :: "('t \<Rightarrow> nat \<Rightarrow> 't list \<Rightarrow> 'r) \<Rightarrow> 't list \<Rightarrow> 'r list" where
  "array_map f array = map (\<lambda>i. f (array ! i) i array) [0..<length array]"

text \<open>A call of the transform fails when it throws or when its promise rejects.\<close>

fun fails :: "'e + ('r, 'e) Promise \<Rightarrow> bool" where
  "fails (Inr (Resolves v)) = False"
| "fails (Inr (Rejects reason)) = True"
| "fails (Inl thrown) = True"

text \<open>The tag of a slot of the returned array; a hole has neither tag.\<close>

fun is_rejected :: "('r, 'e) PromiseSettledResult option \<Rightarrow> bool" where
  "is_rejected (Some (Rejected reason)) = True"
| "is_rejected slot = False"

fun is_fulfilled :: "('r, 'e) PromiseSettledResult option \<Rightarrow> bool" where
  "is_fulfilled (Some (Fulfilled v)) = True"
| "is_fulfilled slot = False"

text \<open>Every item of the array has a string form: building the labels does not throw.\<close>

fun has_string :: "'e + string \<Rightarrow> bool" where
  "has_string (Inr label) = True"
| "has_string (Inl thrown) = False"

fun stringable :: "('t, 'e) ToString \<Rightarrow> 't list \<Rightarrow> bool" where
  "stringable toStr [] = True"
| "stringable toStr (v # vs) = (has_string (toStr v) \<and> stringable toStr vs)"

text \<open>The generator after \<open>c\<close> items have been handed out and before it has completed.\<close>

fun gen_at :: "nat \<Rightarrow> genState" where
  "gen_at 0 = SuspendedStart"
| "gen_at (Suc index) = SuspendedYield index"

section \<open>The invariant of a run\<close>

text \<open>How many items the generator has handed out so far.\<close>

fun handed :: "nat \<Rightarrow> genState option \<Rightarrow> nat" where
  "handed n None = 0"
| "handed n (Some SuspendedStart) = 0"
| "handed n (Some (SuspendedYield index)) = index + 1"
| "handed n (Some Completed) = n"

text \<open>The generator exists, and a suspended loop variable is a valid index.\<close>

fun gen_ok :: "nat \<Rightarrow> genState option \<Rightarrow> bool" where
  "gen_ok n None = False"
| "gen_ok n (Some (SuspendedYield index)) = (index < n)"
| "gen_ok n (Some g) = True"

text \<open>Slot \<open>i\<close> of a JavaScript array exists and is not a hole.\<close>

definition filled :: "'a option list \<Rightarrow> nat \<Rightarrow> bool" where
  "filled xs i \<longleftrightarrow> i < length xs \<and> xs ! i \<noteq> None"

text \<open>
  A suspended worker holds an index that was handed out and the item at that index, and
  the promise it waits for resolves with the settled outcome of the transform on that
  item; no worker has thrown.
\<close>

fun worker_ok :: "'t list \<Rightarrow> ('t, 'r, 'e) AsyncMapFn \<Rightarrow> nat \<Rightarrow> ('t, 'r, 'e) worker option \<Rightarrow> bool" where
  "worker_ok a mapFn c (Some (Awaiting wid processed currentValue index outcome)) =
     (index < c \<and> currentValue = a ! index \<and>
      outcome = Inr (settle (mapFn (a ! index) index a)))"
| "worker_ok a mapFn c (Some (Threw reason)) = False"
| "worker_ok a mapFn c w = True"

fun waits_for :: "('t, 'r, 'e) worker option \<Rightarrow> nat \<Rightarrow> bool" where
  "waits_for (Some (Awaiting wid processed currentValue index outcome)) i = (index = i)"
| "waits_for w i = False"

text \<open>
  The invariant: the input array is the one given and each of its items has a string
  form; the result array is no longer than
  the number of items handed out; every written slot holds the settled outcome of its own
  item; and every item handed out is either written or awaited by some worker.
\<close>

definition run_inv ::
  "'t list \<Rightarrow> ('t, 'e) ToString \<Rightarrow> ('t, 'r, 'e) AsyncMapFn \<Rightarrow> ('t, 'r, 'e) state \<Rightarrow> bool" where
  "run_inv a toStr mapFn s \<longleftrightarrow>
     arr s = a \<and> stringable toStr a \<and> gen_ok (length a) (gen s) \<and>
     length (result s) \<le> handed (length a) (gen s) \<and>
     (\<forall>i < length (result s). \<forall>r. result s ! i = Some r \<longrightarrow> r = settle (mapFn (a ! i) i a)) \<and>
     (\<forall>w \<in> set (workers s). worker_ok a mapFn (handed (length a) (gen s)) w) \<and>
     (\<forall>i < handed (length a) (gen s). filled (result s) i \<or> (\<exists>w \<in> set (workers s). waits_for w i))"

text \<open>Progress: as long as the generator is not completed, some worker is suspended.\<close>

definition live :: "('t, 'r, 'e) state \<Rightarrow> bool" where
  "live s \<longleftrightarrow> gen s = Some Completed \<or> (\<exists>w \<in> set (workers s). is_awaiting w)"

subsection \<open>Each step keeps the invariant\<close>

lemma runMapFn_settle: "runMapFn mapFn v i a = Inr (settle (mapFn v i a))"
proof (cases "mapFn v i a")
  case (Inl thrown)
  then show ?thesis by (simp add: runMapFn_def)
next
  case (Inr p)
  then show ?thesis by (cases p) (simp_all add: runMapFn_def)
qed

lemma array_set_length: "length (array_set xs i v) = max (length xs) (Suc i)"
  by (auto simp: array_set_def)

lemma array_set_nth_same: "array_set xs i v ! i = Some v"
  by (auto simp: array_set_def nth_append)

lemma array_set_nth_other:
  "j \<noteq> i \<Longrightarrow> j < length (array_set xs i v) \<Longrightarrow>
     array_set xs i v ! j = (if j < length xs then xs ! j else None)"
  by (auto simp: array_set_def nth_append)

lemma filled_array_set: "filled (array_set xs i v) j \<longleftrightarrow> j = i \<or> filled xs j"
proof (cases "j = i")
  case True
  then show ?thesis by (simp add: filled_def array_set_length array_set_nth_same)
next
  case False
  then show ?thesis
    by (auto simp: filled_def array_set_length array_set_nth_other split: if_splits)
qed

lemma stringable_nth:
  "stringable toStr a \<Longrightarrow> i < length a \<Longrightarrow> \<exists>label. toStr (a ! i) = Inr label"
proof (induction a arbitrary: i)
  case Nil
  then show ?case by simp
next
  case (Cons v vs)
  show ?case
  proof (cases i)
    case 0
    with Cons.prems show ?thesis by (cases "toStr v") simp_all
  next
    case (Suc j)
    with Cons.prems Cons.IH [of j] show ?thesis by simp
  qed
qed

lemma handed_le: "gen_ok n g \<Longrightarrow> handed n g \<le> n"
  by (cases "(n, g)" rule: gen_ok.cases) simp_all

lemma worker_ok_mono: "worker_ok a mapFn c w \<Longrightarrow> c \<le> c' \<Longrightarrow> worker_ok a mapFn c' w"
  by (cases "(a, mapFn, c, w)" rule: worker_ok.cases) auto

lemma waits_for_awaiting: "waits_for w i \<Longrightarrow> is_awaiting w"
  by (cases "(w, i)" rule: waits_for.cases) auto

lemma next_handed:
  assumes "mapParams_next a g = (x, g')" and "gen_ok (length a) (Some g)"
  shows "gen_ok (length a) (Some g')"
    and "x = None \<Longrightarrow> g' = Completed"
    and "x = None \<Longrightarrow> handed (length a) (Some g) = length a"
    and "x \<noteq> None \<Longrightarrow> x = Some (a ! handed (length a) (Some g), handed (length a) (Some g), a)
            \<and> handed (length a) (Some g') = Suc (handed (length a) (Some g))
            \<and> handed (length a) (Some g) < length a"
  using assms by (cases g; auto split: if_splits)+


lemma worker_loop_step:
  assumes i: "run_inv a toStr mapFn s"
    and wl: "worker_loop toStr mapFn wid p s = (w, s')"
    and sub: "set ws' \<subseteq> insert (Some w) (set (workers s))"
    and mem: "Some w \<in> set ws'"
    and keep: "\<forall>x \<in> set (workers s). x \<in> set ws' \<or> (\<forall>i. waits_for x i \<longrightarrow> filled (result s) i)"
  shows "run_inv a toStr mapFn (s'\<lparr>workers := ws'\<rparr>)" and "live (s'\<lparr>workers := ws'\<rparr>)"
proof -
  from i have a: "arr s = a" and str: "stringable toStr a" and gok: "gen_ok (length a) (gen s)"
    and len: "length (result s) \<le> handed (length a) (gen s)"
    and vals: "\<forall>i < length (result s). \<forall>r. result s ! i = Some r \<longrightarrow> r = settle (mapFn (a ! i) i a)"
    and wok: "\<forall>w \<in> set (workers s). worker_ok a mapFn (handed (length a) (gen s)) w"
    and cov: "\<forall>i < handed (length a) (gen s). filled (result s) i \<or> (\<exists>w \<in> set (workers s). waits_for w i)"
    by (simp_all add: run_inv_def)
  from gok obtain g where g: "gen s = Some g" by (cases "gen s") auto
  obtain x g' where n: "mapParams_next a g = (x, g')" by (cases "mapParams_next a g") auto
  note nh = next_handed [OF n gok [unfolded g]]
  let ?c = "handed (length a) (Some g)"
  have cov': "filled (result s) j \<or> (\<exists>w \<in> set ws'. waits_for w j)" if "j < ?c" for j
  proof -
    from cov that g have "filled (result s) j \<or> (\<exists>w \<in> set (workers s). waits_for w j)" by simp
    then show ?thesis using keep by blast
  qed
  show "run_inv a toStr mapFn (s'\<lparr>workers := ws'\<rparr>)" and "live (s'\<lparr>workers := ws'\<rparr>)"
  proof (atomize (full), cases x)
    case None
    with wl g n a have w: "w = Returned"
      and s': "s' = s\<lparr>gen := Some g', console := console s @ [LogWorker wid p]\<rparr>"
      by (auto simp: worker_loop_def)
    from nh(2,3) None have g': "g' = Completed" and c: "?c = length a" by simp_all
    have "\<forall>w \<in> set ws'. worker_ok a mapFn (length a) w"
    proof
      fix y assume "y \<in> set ws'"
      with sub have "y = Some w \<or> y \<in> set (workers s)" by auto
      then show "worker_ok a mapFn (length a) y" using w wok g c by auto
    qed
    then show "run_inv a toStr mapFn (s'\<lparr>workers := ws'\<rparr>) \<and> live (s'\<lparr>workers := ws'\<rparr>)"
      using a str len vals cov' g c by (simp add: run_inv_def live_def s' g')
  next
    case (Some item)
    with nh(4) have item: "item = (a ! ?c, ?c, a)" and c': "handed (length a) (Some g') = Suc ?c"
      and cl: "?c < length a" by simp_all
    from stringable_nth [OF str cl] obtain label where label: "toStr (a ! ?c) = Inr label" ..
    with item wl g n a Some have w: "w = Awaiting wid p (a ! ?c) ?c (runMapFn mapFn (a ! ?c) ?c a)"
      and s': "s' = s\<lparr>gen := Some g', console := console s @ [TimeItem wid ?c label]\<rparr>"
      by (auto simp: worker_loop_def)
    have wok': "\<forall>w \<in> set ws'. worker_ok a mapFn (Suc ?c) w"
    proof
      fix y assume "y \<in> set ws'"
      with sub have "y = Some w \<or> y \<in> set (workers s)" by auto
      then show "worker_ok a mapFn (Suc ?c) y"
      proof
        assume "y = Some w"
        then show ?thesis by (simp add: w runMapFn_settle)
      next
        assume "y \<in> set (workers s)"
        with wok g have "worker_ok a mapFn ?c y" by simp
        then show ?thesis by (rule worker_ok_mono) simp
      qed
    qed
    have cov'': "\<forall>j < Suc ?c. filled (result s) j \<or> (\<exists>w \<in> set ws'. waits_for w j)"
    proof (intro allI impI)
      fix j assume "j < Suc ?c"
      then consider "j < ?c" | "j = ?c" by linarith
      then show "filled (result s) j \<or> (\<exists>w \<in> set ws'. waits_for w j)"
      proof cases
        case 1 then show ?thesis by (rule cov')
      next
        case 2
        have "waits_for (Some w) j" by (simp add: w 2)
        with mem show ?thesis by blast
      qed
    qed
    have "is_awaiting (Some w)" by (simp add: w)
    with mem have "\<exists>w \<in> set ws'. is_awaiting w" by blast
    then show "run_inv a toStr mapFn (s'\<lparr>workers := ws'\<rparr>) \<and> live (s'\<lparr>workers := ws'\<rparr>)"
      using a str len vals wok' cov'' g nh(1) c' by (simp add: run_inv_def live_def s')
  qed
qed


lemma write_inv:
  assumes i: "run_inv a toStr mapFn s" and j: "j < handed (length a) (gen s)"
    and r: "r = settle (mapFn (a ! j) j a)"
  shows "run_inv a toStr mapFn (s\<lparr>result := array_set (result s) j r, console := cs\<rparr>)"
proof -
  have "r' = settle (mapFn (a ! i) i a)"
    if "i < length (array_set (result s) j r)" and "array_set (result s) j r ! i = Some r'" for i r'
  proof (cases "i = j")
    case True
    with that r show ?thesis by (simp add: array_set_nth_same)
  next
    case False
    with that i show ?thesis
      by (auto simp: array_set_nth_other run_inv_def split: if_splits)
  qed
  with i j show ?thesis
    by (auto simp: run_inv_def array_set_length filled_array_set)
qed

lemma resume_inv:
  assumes i: "run_inv a toStr mapFn s" and k: "k \<in> set (awaiting (workers s))"
  shows "run_inv a toStr mapFn (resume toStr mapFn k s)" and "live (resume toStr mapFn k s)"
proof -
  from k have kl: "k < length (workers s)" and aw: "is_awaiting (workers s ! k)"
    by (simp_all add: awaiting_mem)
  from aw obtain wid p v j outcome where w: "workers s ! k = Some (Awaiting wid p v j outcome)"
    by (cases "workers s ! k" rule: is_awaiting.cases) auto
  from kl have "workers s ! k \<in> set (workers s)" by simp
  with i have "worker_ok a mapFn (handed (length a) (gen s)) (workers s ! k)"
    by (simp add: run_inv_def)
  with w have j: "j < handed (length a) (gen s)" and v: "v = a ! j"
    and out: "outcome = Inr (settle (mapFn (a ! j) j a))" by simp_all
  from i have str: "stringable toStr a" and "gen_ok (length a) (gen s)"
    by (simp_all add: run_inv_def)
  from handed_le [OF this(2)] j have "j < length a" by simp
  from stringable_nth [OF str this] v obtain label where label: "toStr v = Inr label" by auto
  let ?r = "settle (mapFn (a ! j) j a)"
  let ?s1 = "s\<lparr>result := array_set (result s) j ?r, console := console s @ [TimeEndItem wid j label]\<rparr>"
  have i1: "run_inv a toStr mapFn ?s1" using i j by (rule write_inv) simp
  obtain w' s' where wl: "worker_loop toStr mapFn wid (p + 1) ?s1 = (w', s')"
    by (cases "worker_loop toStr mapFn wid (p + 1) ?s1") auto
  from worker_loop_arr [OF wl] have ws: "workers s' = workers s" by simp
  have res: "resume toStr mapFn k s = s'\<lparr>workers := (workers s)[k := Some w']\<rparr>"
    using kl w out label wl ws by (simp add: resume_def)
  have sub: "set ((workers s)[k := Some w']) \<subseteq> insert (Some w') (set (workers ?s1))"
    by (simp add: set_update_subset_insert)
  have mem: "Some w' \<in> set ((workers s)[k := Some w'])"
    using kl by (simp add: set_update_memI)
  have keep: "\<forall>x \<in> set (workers ?s1). x \<in> set ((workers s)[k := Some w'])
                \<or> (\<forall>i. waits_for x i \<longrightarrow> filled (result ?s1) i)"
  proof
    fix x assume "x \<in> set (workers ?s1)"
    then obtain m where m: "m < length (workers s)" "x = workers s ! m"
      by (auto simp: in_set_conv_nth)
    show "x \<in> set ((workers s)[k := Some w']) \<or> (\<forall>i. waits_for x i \<longrightarrow> filled (result ?s1) i)"
    proof (cases "m = k")
      case True
      with m w show ?thesis by (simp add: filled_array_set)
    next
      case False
      with m have "(workers s)[k := Some w'] ! m = x" by simp
      with m have "x \<in> set ((workers s)[k := Some w'])"
        by (metis length_list_update nth_mem)
      then show ?thesis ..
    qed
  qed
  show "run_inv a toStr mapFn (resume toStr mapFn k s)" unfolding res
    by (rule worker_loop_step(1) [OF i1 wl sub mem keep])
  show "live (resume toStr mapFn k s)" unfolding res
    by (rule worker_loop_step(2) [OF i1 wl sub mem keep])
qed

lemma rejected_None: "\<forall>w \<in> set ws. worker_ok a mapFn c w \<Longrightarrow> rejected ws = None"
  by (induction ws rule: rejected.induct) auto

lemma promiseAll_inv:
  "run_inv a toStr mapFn s \<Longrightarrow>
     fst (promiseAll toStr mapFn sched s) = Inr () \<and>
     run_inv a toStr mapFn (snd (promiseAll toStr mapFn sched s)) \<and>
     awaiting (workers (snd (promiseAll toStr mapFn sched s))) = [] \<and>
     (live s \<longrightarrow> live (snd (promiseAll toStr mapFn sched s)))"
proof (induction toStr mapFn sched s rule: promiseAll.induct)
  case (1 toStr mapFn sched s)
  from "1.prems" have rej: "rejected (workers s) = None"
    by (auto simp: run_inv_def intro: rejected_None)
  show ?case
  proof (cases "awaiting (workers s) = []")
    case True
    with rej have "promiseAll toStr mapFn sched s = (Inr (), s)"
      by (subst promiseAll.simps) simp
    with True "1.prems" show ?thesis by simp
  next
    case False
    let ?k = "awaiting (workers s) ! pick sched (length (awaiting (workers s)))"
    from False have k: "?k \<in> set (awaiting (workers s))" by (simp add: pick_less)
    from resume_inv [OF "1.prems" k] "1.IH" [OF rej False]
    have "fst (promiseAll toStr mapFn (tl sched) (resume toStr mapFn ?k s)) = Inr () \<and>
          run_inv a toStr mapFn (snd (promiseAll toStr mapFn (tl sched) (resume toStr mapFn ?k s))) \<and>
          awaiting (workers (snd (promiseAll toStr mapFn (tl sched) (resume toStr mapFn ?k s)))) = [] \<and>
          live (snd (promiseAll toStr mapFn (tl sched) (resume toStr mapFn ?k s)))" by simp
    moreover have "promiseAll toStr mapFn sched s = promiseAll toStr mapFn (tl sched) (resume toStr mapFn ?k s)"
      using rej False by (subst promiseAll.simps) simp
    ultimately show ?thesis by simp
  qed
qed

lemma launch_inv:
  "run_inv a toStr mapFn s \<Longrightarrow>
     run_inv a toStr mapFn (launch toStr mapFn i concurrentLimit s) \<and>
     (live s \<or> int i < concurrentLimit \<longrightarrow> live (launch toStr mapFn i concurrentLimit s))"
proof (induction toStr mapFn i concurrentLimit s rule: launch.induct)
  case (1 toStr mapFn i concurrentLimit s)
  show ?case
  proof (cases "int i < concurrentLimit")
    case False
    then have "launch toStr mapFn i concurrentLimit s = s"
      by (subst launch.simps) simp
    with False "1.prems" show ?thesis by simp
  next
    case True
    let ?s0 = "s\<lparr>console := console s @ [TimeWorker i]\<rparr>"
    obtain w s' where wl: "worker_loop toStr mapFn i 0 ?s0 = (w, s')"
      by (cases "worker_loop toStr mapFn i 0 ?s0") auto
    then have wk: "worker toStr mapFn i s = (w, s')" by (simp add: worker_def)
    from worker_loop_arr [OF wl] have ws: "workers s' = workers s" by simp
    from "1.prems" have i0: "run_inv a toStr mapFn ?s0" by (simp add: run_inv_def)
    have i1: "run_inv a toStr mapFn (s'\<lparr>workers := workers s' @ [Some w]\<rparr>)"
      and l1: "live (s'\<lparr>workers := workers s' @ [Some w]\<rparr>)"
      using worker_loop_step [OF i0 wl, of "workers s' @ [Some w]"] by (auto simp: ws)
    have "launch toStr mapFn i concurrentLimit s =
            launch toStr mapFn (i + 1) concurrentLimit (s'\<lparr>workers := workers s' @ [Some w]\<rparr>)"
      using True wk by (subst launch.simps) simp
    with "1.IH" [OF True wk [symmetric] i1] l1 show ?thesis by simp
  qed
qed


lemma final_result:
  assumes i: "run_inv a toStr mapFn s" and l: "live s" and d: "awaiting (workers s) = []"
  shows "result s = map Some (allSettled_map mapFn a)"
proof -
  from d have na: "\<not> is_awaiting w" if "w \<in> set (workers s)" for w
  proof -
    from that obtain k where "k < length (workers s)" "w = workers s ! k"
      by (auto simp: in_set_conv_nth)
    with d awaiting_mem [of k "workers s"] show ?thesis by auto
  qed
  with l have c: "handed (length a) (gen s) = length a" by (auto simp: live_def)
  have f: "filled (result s) j" if "j < length a" for j
  proof -
    from i that c have "filled (result s) j \<or> (\<exists>w \<in> set (workers s). waits_for w j)"
      by (simp add: run_inv_def)
    moreover have "\<not> waits_for w j" if "w \<in> set (workers s)" for w
      using na [OF that] waits_for_awaiting [of w j] by blast
    ultimately show ?thesis by blast
  qed
  have len: "length (result s) = length a"
  proof (rule antisym)
    show "length (result s) \<le> length a" using i c by (simp add: run_inv_def)
    show "length a \<le> length (result s)"
    proof (cases a)
      case Nil then show ?thesis by simp
    next
      case (Cons x xs)
      then have m: "length a - 1 < length a" by simp
      from f [OF m] have "length a - 1 < length (result s)" by (simp add: filled_def)
      with m show ?thesis by linarith
    qed
  qed
  show ?thesis
  proof (rule nth_equalityI)
    show "length (result s) = length (map Some (allSettled_map mapFn a))"
      by (simp add: len allSettled_map_def)
  next
    fix j assume "j < length (result s)"
    with len have j: "j < length a" by simp
    from f [OF j] obtain r where r: "result s ! j = Some r" by (auto simp: filled_def)
    with i j len have "r = settle (mapFn (a ! j) j a)" by (simp add: run_inv_def)
    with r j show "result s ! j = map Some (allSettled_map mapFn a) ! j"
      by (simp add: allSettled_map_def)
  qed
qed

subsection \<open>The whole run\<close>

lemma run_unfold:
  assumes "array \<noteq> []" and "\<not> min concurrentLimit (int (length array)) < 0"
  shows "mapAllSettled_run sched toStr array mapFn concurrentLimit =
     (case promiseAll toStr mapFn sched
             ((launch toStr mapFn 0 (min concurrentLimit (int (length array)))
                 \<lparr>arr = array, gen = Some SuspendedStart, result = [],
                    workers = replicate (nat (min concurrentLimit (int (length array)))) None,
                    console = []\<rparr>)
              \<lparr>console := console (launch toStr mapFn 0 (min concurrentLimit (int (length array)))
                 \<lparr>arr = array, gen = Some SuspendedStart, result = [],
                    workers = replicate (nat (min concurrentLimit (int (length array)))) None,
                    console = []\<rparr>) @ [LogInitialized (min concurrentLimit (int (length array)))]\<rparr>) of
        (Inl reason, s4) \<Rightarrow> (Inl (Uncaught reason), s4)
      | (Inr u, s4) \<Rightarrow> (Inr (result s4), s4))"
  unfolding mapAllSettled_run_def Let_def mapParams_def
  using assms by (simp only: state.simps length_0_conv if_False state.update_convs)

lemma run_negative:
  assumes "array \<noteq> []" and "concurrentLimit < 0"
  shows "mapAllSettled_run sched toStr array mapFn concurrentLimit =
     (Inl RangeError, \<lparr>arr = array, gen = Some SuspendedStart, result = [], workers = [], console = []\<rparr>)"
  unfolding mapAllSettled_run_def Let_def mapParams_def
  using assms by simp

lemma run_nonempty:
  fixes mapFn :: "('t, 'r, 'e) AsyncMapFn"
  assumes ne: "array \<noteq> []" and lim: "0 \<le> concurrentLimit"
    and str: "stringable toStr array"
  shows "\<exists>s. mapAllSettled_run sched toStr array mapFn concurrentLimit = (Inr (result s), s)
           \<and> run_inv array toStr mapFn s \<and> awaiting (workers s) = []
           \<and> (1 \<le> concurrentLimit \<longrightarrow> live s)"
proof -
  define n where "n = min concurrentLimit (int (length array))"
  define s1 :: "('t, 'r, 'e) state" where
    "s1 = \<lparr>arr = array, gen = Some SuspendedStart, result = [],
            workers = replicate (nat n) None, console = []\<rparr>"
  define s2 where "s2 = launch toStr mapFn 0 n s1"
  define s3 where "s3 = s2\<lparr>console := console s2 @ [LogInitialized n]\<rparr>"
  from lim have n0: "\<not> n < 0" by (simp add: n_def)
  have i1: "run_inv array toStr mapFn s1" using str by (simp add: run_inv_def s1_def)
  from launch_inv [OF i1, of 0 n]
  have i2: "run_inv array toStr mapFn s2" and l2: "0 < n \<longrightarrow> live s2" by (simp_all add: s2_def)
  from i2 have i3: "run_inv array toStr mapFn s3" by (simp add: run_inv_def s3_def)
  from ne have "1 \<le> concurrentLimit \<longrightarrow> 0 < n" by (cases array) (auto simp: n_def)
  with l2 have l3: "1 \<le> concurrentLimit \<longrightarrow> live s3" by (simp add: live_def s3_def)
  obtain u s4 where p: "promiseAll toStr mapFn sched s3 = (u, s4)"
    by (cases "promiseAll toStr mapFn sched s3") auto
  from promiseAll_inv [OF i3, of sched] p l3
  have u: "u = Inr ()" and r: "run_inv array toStr mapFn s4" "awaiting (workers s4) = []"
    "1 \<le> concurrentLimit \<longrightarrow> live s4" by simp_all
  have "mapAllSettled_run sched toStr array mapFn concurrentLimit =
          (case promiseAll toStr mapFn sched s3 of
             (Inl reason, s4) \<Rightarrow> (Inl (Uncaught reason), s4)
           | (Inr u, s4) \<Rightarrow> (Inr (result s4), s4))"
    unfolding s3_def s2_def s1_def n_def by (rule run_unfold [OF ne n0 [unfolded n_def]])
  with p u have "mapAllSettled_run sched toStr array mapFn concurrentLimit = (Inr (result s4), s4)"
    by simp
  with r show ?thesis by blast
qed

lemma run_empty:
  "mapAllSettled_run sched toStr [] mapFn concurrentLimit =
     (Inr [], \<lparr>arr = [], gen = None, result = [], workers = [], console = []\<rparr>)"
  by (simp add: mapAllSettled_run_def)

lemma mapAllSettled_settles:
  assumes "array = [] \<or> 1 \<le> concurrentLimit" and str: "stringable toStr array"
  shows "mapAllSettled sched toStr array mapFn concurrentLimit = Inr (map Some (allSettled_map mapFn array))"
proof (cases "array = []")
  case True
  then show ?thesis by (simp add: mapAllSettled_def run_empty allSettled_map_def)
next
  case False
  with assms have l: "1 \<le> concurrentLimit" by simp
  then have "0 \<le> concurrentLimit" by simp
  from run_nonempty [OF False this str, of sched mapFn] l
  obtain s where r: "mapAllSettled_run sched toStr array mapFn concurrentLimit = (Inr (result s), s)"
    and s: "run_inv array toStr mapFn s" "live s" "awaiting (workers s) = []" by blast
  from final_result [OF s] r show ?thesis by (simp add: mapAllSettled_def)
qed

lemma mapAllSettled_no_error:
  assumes "array = [] \<or> 0 \<le> concurrentLimit" and str: "stringable toStr array"
  shows "\<exists>r. mapAllSettled sched toStr array mapFn concurrentLimit = Inr r"
proof (cases "array = []")
  case True
  then show ?thesis by (simp add: mapAllSettled_def run_empty)
next
  case False
  with assms have "0 \<le> concurrentLimit" by simp
  from run_nonempty [OF False this str, of sched mapFn]
  obtain s where "mapAllSettled_run sched toStr array mapFn concurrentLimit = (Inr (result s), s)"
    by blast
  then show ?thesis by (simp add: mapAllSettled_def)
qed

lemma resume_arr: "arr (resume toStr mapFn k s) = arr s"
proof (cases "k < length (workers s)")
  case False
  then show ?thesis by (simp add: resume_def)
next
  case True
  show ?thesis
  proof (cases "workers s ! k")
    case None
    with True show ?thesis by (simp add: resume_def)
  next
    case (Some w)
    show ?thesis
    proof (cases w)
      case (Awaiting wid p v j outcome)
      show ?thesis
      proof (cases outcome)
        case (Inl thrown)
        with True Some Awaiting show ?thesis by (simp add: resume_def worker_throws_def)
      next
        case (Inr settled)
        show ?thesis
        proof (cases "toStr v")
          case (Inl thrown)
          with True Some Awaiting Inr show ?thesis by (simp add: resume_def worker_throws_def)
        next
          case label: (Inr label)
          let ?s1 = "s\<lparr>result := array_set (result s) j settled,
                       console := console s @ [TimeEndItem wid j label]\<rparr>"
          obtain w' s' where wl: "worker_loop toStr mapFn wid (p + 1) ?s1 = (w', s')"
            by (cases "worker_loop toStr mapFn wid (p + 1) ?s1") auto
          from worker_loop_arr [OF wl] have "arr s' = arr s" by simp
          with True Some Awaiting Inr label wl show ?thesis by (simp add: resume_def)
        qed
      qed
    qed (use True Some in \<open>simp_all add: resume_def\<close>)
  qed
qed

lemma promiseAll_arr: "arr (snd (promiseAll toStr mapFn sched s)) = arr s"
proof (induction toStr mapFn sched s rule: promiseAll.induct)
  case (1 toStr mapFn sched s)
  show ?case
  proof (cases "rejected (workers s)")
    case (Some reason)
    then show ?thesis by (subst promiseAll.simps) simp
  next
    case None
    show ?thesis
    proof (cases "awaiting (workers s) = []")
      case True
      with None show ?thesis by (subst promiseAll.simps) simp
    next
      case False
      with None "1.IH" [OF None False] show ?thesis
        by (subst promiseAll.simps) (simp add: resume_arr)
    qed
  qed
qed

lemma launch_arr: "arr (launch toStr mapFn i concurrentLimit s) = arr s"
proof (induction toStr mapFn i concurrentLimit s rule: launch.induct)
  case (1 toStr mapFn i concurrentLimit s)
  show ?case
  proof (cases "int i < concurrentLimit")
    case False
    then show ?thesis by (subst launch.simps) simp
  next
    case True
    obtain w s' where wk: "worker toStr mapFn i s = (w, s')" by (cases "worker toStr mapFn i s") auto
    then have "arr s' = arr s" by (auto simp: worker_def dest: worker_loop_arr)
    with "1.IH" [OF True wk [symmetric]] True wk show ?thesis
      by (subst launch.simps) simp
  qed
qed

lemma run_arr:
  fixes mapFn :: "('t, 'r, 'e) AsyncMapFn"
  shows "arr (snd (mapAllSettled_run sched toStr array mapFn concurrentLimit)) = array"
proof -
  have "arr (snd (case promiseAll toStr mapFn sched s of
                    (Inl reason, s4) \<Rightarrow> (Inl (Uncaught reason), s4)
                  | (Inr u, s4) \<Rightarrow> (Inr (result s4), s4))) = arr s" for s :: "('t, 'r, 'e) state"
    using promiseAll_arr [of toStr mapFn sched s]
    by (cases "promiseAll toStr mapFn sched s") (auto split: sum.splits)
  note * = this
  show ?thesis
  proof (cases "array = []")
    case True
    then show ?thesis by (simp add: run_empty)
  next
    case False
    show ?thesis
    proof (cases "min concurrentLimit (int (length array)) < 0")
      case True
      with False have "concurrentLimit < 0" by simp
      from run_negative [OF False this, of sched toStr mapFn] show ?thesis by simp
    next
      case n0: False
      show ?thesis
        by (simp only: run_unfold [OF False n0, of sched toStr mapFn] *) (simp add: launch_arr)
    qed
  qed
qed


lemma run_min:
  "mapAllSettled_run sched toStr array mapFn concurrentLimit =
   mapAllSettled_run sched toStr array mapFn (min concurrentLimit (int (length array)))"
proof -
  have "min (min concurrentLimit (int (length array))) (int (length array))
          = min concurrentLimit (int (length array))" by simp
  then show ?thesis
    unfolding mapAllSettled_run_def Let_def by (simp only: state.simps)
qed

lemma run_zero:
  fixes mapFn :: "('t, 'r, 'e) AsyncMapFn"
  assumes "array \<noteq> []"
  shows "mapAllSettled_run sched toStr array mapFn 0 =
     (Inr [], \<lparr>arr = array, gen = Some SuspendedStart, result = [], workers = [],
               console = [LogInitialized 0]\<rparr>)"
proof -
  let ?s = "\<lparr>arr = array, gen = Some SuspendedStart, result = [], workers = [],
             console = []\<rparr> :: ('t, 'r, 'e) state"
  have m: "min 0 (int (length array)) = 0" by simp
  have l: "launch toStr mapFn 0 0 ?s = ?s" by (subst launch.simps) simp
  let ?s' = "\<lparr>arr = array, gen = Some SuspendedStart, result = [], workers = [],
              console = [LogInitialized 0]\<rparr> :: ('t, 'r, 'e) state"
  have p: "promiseAll toStr mapFn sched ?s' = (Inr (), ?s')"
    by (subst promiseAll.simps) (simp add: awaiting_def)
  from assms have "\<not> min 0 (int (length array)) < 0" by simp
  from run_unfold [OF assms this, of sched toStr mapFn] show ?thesis
    by (simp add: m l p)
qed

lemma default_limit_admissible: "array = [] \<or> 1 \<le> default_concurrentLimit array"
  by (cases array) (simp_all add: default_concurrentLimit_def)

subsection \<open>The generator, call by call\<close>

lemma nexts_Completed: "nexts array k Completed = replicate k None"
  by (induction k) simp_all

lemma nexts_gen_at:
  "c \<le> length array \<Longrightarrow>
     nexts array k (gen_at c) =
     map (\<lambda>i. if i < length array then Some (array ! i, i, array) else None) [c..<c + k]"
proof (induction k arbitrary: c)
  case 0
  then show ?case by simp
next
  case (Suc k)
  show ?case
  proof (cases "c < length array")
    case True
    then have n: "mapParams_next array (gen_at c) = (Some (array ! c, c, array), gen_at (Suc c))"
      by (cases c) simp_all
    from True Suc.IH [of "Suc c"] n show ?thesis
      by (simp add: upt_conv_Cons del: upt_Suc)
  next
    case False
    with Suc.prems have c: "c = length array" by simp
    have n: "mapParams_next array (gen_at c) = (None, Completed)"
      unfolding c by (cases array) simp_all
    have "map (\<lambda>i. if i < length array then Some (array ! i, i, array) else None) [c..<c + Suc k]
            = map (\<lambda>i. None) [c..<c + Suc k]"
      unfolding c by (intro map_cong refl) auto
    also have "\<dots> = replicate (Suc k) None"
      by (simp add: map_replicate_const del: upt_Suc)
    finally show ?thesis using n by (simp add: nexts_Completed del: upt_Suc)
  qed
qed

section \<open>Sample inputs\<close>

text \<open>
  Two kinds of JavaScript values as items, with their conversion to a string: a string
  converts to itself, and a \<^verbatim>\<open>Symbol\<close> throws a \<^verbatim>\<open>TypeError\<close>.
\<close>

datatype jsval = JStr string | JSym string

fun js_ToString :: "(jsval, string) ToString" where
  "js_ToString (JStr s) = Inr s"
| "js_ToString (JSym description) = Inl ''TypeError''"

section \<open>The claims\<close>

text \<open>
  In what follows \<open>sched\<close> is any schedule: a statement with a free \<open>sched\<close> holds
  for every order in which the promises of the transform may settle.
\<close>

text \<open>
  C1. The requested limit is capped from above only: line 110 replaces it by the
  minimum of the request and the length \<open>N\<close> of the input, so a request of more than
  \<open>N\<close> behaves identically to a request of \<open>N\<close>: same outcome, same final state, same
  console output, under every schedule. Nothing raises a request below 1.
\<close>

theorem limit_above_length_is_length:
  "int (length array) \<le> concurrentLimit \<Longrightarrow>
     mapAllSettled_run sched toStr array mapFn concurrentLimit =
     mapAllSettled_run sched toStr array mapFn (int (length array))"
  by (subst run_min) (simp add: min_absorb2)

theorem limit_above_length_is_length_witness:
  "int (length [JStr ''x'', JStr ''y'', JStr ''z'']) \<le> 10 \<and>
   mapAllSettled_run [1, 1, 0] js_ToString [JStr ''x'', JStr ''y'', JStr ''z'']
     (\<lambda>v i a. Inr (Resolves (2 * i)) :: string + (nat, string) Promise) 10 =
   mapAllSettled_run [1, 1, 0] js_ToString [JStr ''x'', JStr ''y'', JStr ''z'']
     (\<lambda>v i a. Inr (Resolves (2 * i)) :: string + (nat, string) Promise) 3"
  using limit_above_length_is_length [of "[JStr ''x'', JStr ''y'', JStr ''z'']" 10 "[1, 1, 0]"
    js_ToString "\<lambda>v i a. Inr (Resolves (2 * i)) :: string + (nat, string) Promise"]
  by simp

text \<open>
  Neither a request of 0 nor a negative request behaves as a request of 1: on a
  one-element input the first returns the empty array and the second fails, where a
  request of 1 returns the settled result of the element.
\<close>

theorem low_limit_is_not_one:
  "mapAllSettled [] js_ToString [JStr ''x'']
     (\<lambda>v i a. Inr (Resolves (i + 1)) :: string + (nat, string) Promise) 0
     \<noteq> mapAllSettled [] js_ToString [JStr ''x'']
          (\<lambda>v i a. Inr (Resolves (i + 1)) :: string + (nat, string) Promise) 1
   \<and>
   mapAllSettled [] js_ToString [JStr ''x'']
     (\<lambda>v i a. Inr (Resolves (i + 1)) :: string + (nat, string) Promise) (- 1)
     \<noteq> mapAllSettled [] js_ToString [JStr ''x'']
          (\<lambda>v i a. Inr (Resolves (i + 1)) :: string + (nat, string) Promise) 1"
  by code_simp

text \<open>
  C2. For an input whose items all have a string form, under any requested limit of at
  least 1 (for the empty input: under any requested limit), \<^verbatim>\<open>mapAllSettled\<close> returns
  an array of exactly the length of the input, with no hole, whose slot \<open>i\<close> is the
  settled outcome of the transform on item \<open>i\<close>, under every schedule.
\<close>

theorem result_length_and_alignment:
  assumes "array = [] \<or> 1 \<le> concurrentLimit" and "stringable toStr array"
  shows "\<exists>r. mapAllSettled sched toStr array mapFn concurrentLimit = Inr r \<and>
           length r = length array \<and>
           (\<forall>i < length array. r ! i = Some (settle (mapFn (array ! i) i array)))"
  using mapAllSettled_settles [OF assms, of sched mapFn] by (simp add: allSettled_map_def)

theorem result_length_and_alignment_witness:
  "([JStr ''x'', JStr ''y'', JStr ''z''] = [] \<or> (1 :: int) \<le> 2) \<and>
   stringable js_ToString [JStr ''x'', JStr ''y'', JStr ''z''] \<and>
   mapAllSettled [1, 1, 0] js_ToString [JStr ''x'', JStr ''y'', JStr ''z'']
     (\<lambda>v i a. Inr (Resolves (2 * i)) :: string + (nat, string) Promise) 2
     = Inr [Some (Fulfilled 0), Some (Fulfilled 2), Some (Fulfilled 4)]"
proof -
  let ?a = "[JStr ''x'', JStr ''y'', JStr ''z'']"
  let ?f = "\<lambda>v i a. Inr (Resolves (2 * i)) :: string + (nat, string) Promise"
  have l: "?a = [] \<or> (1 :: int) \<le> 2" by simp
  have s: "stringable js_ToString ?a" by simp
  from result_length_and_alignment [OF l s, of "[1, 1, 0]" ?f]
  obtain r where r: "mapAllSettled [1, 1, 0] js_ToString ?a ?f 2 = Inr r"
    and len: "length r = 3"
    and v: "\<forall>i < 3. r ! i = Some (settle (?f (?a ! i) i ?a))"
    by auto
  from v [rule_format, of 0] v [rule_format, of 1] v [rule_format, of 2]
  have "r ! 0 = Some (Fulfilled 0)" "r ! 1 = Some (Fulfilled 2)" "r ! 2 = Some (Fulfilled 4)"
    by simp_all
  with len have "r = [Some (Fulfilled 0), Some (Fulfilled 2), Some (Fulfilled 4)]"
    by (auto simp: numeral_3_eq_3 numeral_2_eq_2 length_Suc_conv)
  with r l s show ?thesis by simp
qed

text \<open>
  With a requested limit of 0 the returned array of a one-element input is empty, not
  of length 1. With a \<^verbatim>\<open>Symbol\<close> as the second of three items and a limit of 3, the label
  of line 65 throws in the second worker and the call rejects instead of returning an
  array.
\<close>

theorem result_missing_for_zero_limit_or_symbol:
  "\<not> (\<exists>r. mapAllSettled [] js_ToString [JStr ''x'']
             (\<lambda>v i a. Inr (Resolves (i + 1)) :: string + (nat, string) Promise) 0 = Inr r \<and>
           length r = length [JStr ''x''])
   \<and>
   \<not> (\<exists>r. mapAllSettled [] js_ToString [JStr ''x'', JSym ''a'', JStr ''z'']
             (\<lambda>v i a. Inr (Resolves (i + 1)) :: string + (nat, string) Promise) 3 = Inr r \<and>
           length r = length [JStr ''x'', JSym ''a'', JStr ''z''])"
proof -
  have "mapAllSettled [] js_ToString [JStr ''x'']
          (\<lambda>v i a. Inr (Resolves (i + 1)) :: string + (nat, string) Promise) 0 = Inr []"
    by code_simp
  moreover have "mapAllSettled [] js_ToString [JStr ''x'', JSym ''a'', JStr ''z'']
          (\<lambda>v i a. Inr (Resolves (i + 1)) :: string + (nat, string) Promise) 3
        = Inl (Uncaught ''TypeError'')"
    by code_simp
  ultimately show ?thesis by simp
qed

text \<open>
  C3. For an input whose items all have a string form, under any requested limit that
  is not negative (for the empty input: under any requested limit), \<^verbatim>\<open>mapAllSettled\<close>
  completes without an error whatever the transform does, under every schedule: its
  promise resolves with an array.
\<close>

theorem mapAllSettled_completes:
  assumes "array = [] \<or> 0 \<le> concurrentLimit" and "stringable toStr array"
  shows "\<exists>r. mapAllSettled sched toStr array mapFn concurrentLimit = Inr r"
  using assms by (rule mapAllSettled_no_error)

theorem mapAllSettled_completes_witness:
  "([JStr ''x'', JStr ''y'', JStr ''z''] = [] \<or> (0 :: int) \<le> 2) \<and>
   stringable js_ToString [JStr ''x'', JStr ''y'', JStr ''z''] \<and>
   (\<exists>r. mapAllSettled [0, 1] js_ToString [JStr ''x'', JStr ''y'', JStr ''z'']
          (\<lambda>v i a. if i = 1 then Inl ''boom'' else Inr (Resolves (2 * i))
             :: string + (nat, string) Promise) 2 = Inr r)"
  using mapAllSettled_completes [of "[JStr ''x'', JStr ''y'', JStr ''z'']" 2 js_ToString "[0, 1]"
    "\<lambda>v i a. if i = 1 then Inl ''boom'' else Inr (Resolves (2 * i))
       :: string + (nat, string) Promise"]
  by simp

text \<open>
  With a negative requested limit and a non-empty input the call fails at
  \<^verbatim>\<open>new Array(concurrentLimit)\<close>. With a \<^verbatim>\<open>Symbol\<close> as the only item and a limit of 1 the
  label of line 65 throws in the worker, and the call rejects with what was thrown.
\<close>

theorem negative_limit_or_symbol_rejects:
  "mapAllSettled [] js_ToString [JStr ''x'']
     (\<lambda>v i a. Inr (Resolves (i + 1)) :: string + (nat, string) Promise) (- 1) = Inl RangeError
   \<and>
   mapAllSettled [] js_ToString [JSym ''a'']
     (\<lambda>v i a. Inr (Resolves (i + 1)) :: string + (nat, string) Promise) 1
     = Inl (Uncaught ''TypeError'')"
  by code_simp

text \<open>
  C4. \<^verbatim>\<open>runMapFn\<close> always resolves with a settled result and never rejects:
  \<open>Fulfilled\<close> with the value when the promise of the transform resolves, \<open>Rejected\<close>
  with the unchanged reason when the transform throws or its promise rejects.
\<close>

theorem runMapFn_always_settles:
  "runMapFn mapFn val index array =
     Inr (case mapFn val index array of
            Inl thrown \<Rightarrow> Rejected thrown
          | Inr (Resolves v) \<Rightarrow> Fulfilled v
          | Inr (Rejects reason) \<Rightarrow> Rejected reason)"
  by (simp add: runMapFn_def split: sum.splits Promise.splits)

text \<open>
  C5. When the transform never fails on the input, that is, each call returns a promise
  that resolves with the value of a function \<open>f\<close>, the items all have a string form and
  the requested limit is at least 1 (or the input is empty), the returned array is the
  direct map of \<open>f\<close> over the input, each value tagged \<open>Fulfilled\<close>, under every
  schedule.
\<close>

theorem never_failing_is_direct_map:
  assumes "array = [] \<or> 1 \<le> concurrentLimit" and "stringable toStr array"
    and "\<forall>i < length array. mapFn (array ! i) i array = Inr (Resolves (f (array ! i) i array))"
  shows "mapAllSettled sched toStr array mapFn concurrentLimit =
           Inr (map (\<lambda>v. Some (Fulfilled v)) (array_map f array))"
  using mapAllSettled_settles [OF assms(1,2), of sched mapFn] assms(3)
  by (simp add: allSettled_map_def array_map_def)

theorem never_failing_is_direct_map_witness:
  "([JStr ''x'', JStr ''y'', JStr ''z''] = [] \<or> (1 :: int) \<le> 1) \<and>
   stringable js_ToString [JStr ''x'', JStr ''y'', JStr ''z''] \<and>
   mapAllSettled [] js_ToString [JStr ''x'', JStr ''y'', JStr ''z'']
     (\<lambda>v i a. Inr (Resolves (2 * i)) :: string + (nat, string) Promise) 1
     = Inr [Some (Fulfilled 0), Some (Fulfilled 2), Some (Fulfilled 4)]"
proof -
  let ?a = "[JStr ''x'', JStr ''y'', JStr ''z'']"
  have "array_map (\<lambda>v i a. 2 * i) ?a = [0, 2, 4 :: nat]"
    by code_simp
  with never_failing_is_direct_map [of ?a 1 js_ToString
    "\<lambda>v i a. Inr (Resolves (2 * i)) :: string + (nat, string) Promise" "\<lambda>v i a. 2 * i" "[]"]
  show ?thesis by simp
qed

text \<open>
  With a requested limit of 0 the returned array of a one-element input is not the
  direct map; and with a \<^verbatim>\<open>Symbol\<close> as the only item and a limit of 1 the call rejects
  although the transform never fails.
\<close>

theorem not_direct_map_for_zero_limit_or_symbol:
  "mapAllSettled [] js_ToString [JStr ''x'']
     (\<lambda>v i a. Inr (Resolves (i + 1)) :: string + (nat, string) Promise) 0
   \<noteq> Inr (map (\<lambda>v. Some (Fulfilled v)) (array_map (\<lambda>v i a. i + 1) [JStr ''x'']))
   \<and>
   mapAllSettled [] js_ToString [JSym ''a'']
     (\<lambda>v i a. Inr (Resolves (i + 1)) :: string + (nat, string) Promise) 1
   \<noteq> Inr (map (\<lambda>v. Some (Fulfilled v)) (array_map (\<lambda>v i a. i + 1) [JSym ''a'']))"
  by code_simp

text \<open>
  C6. When the transform fails exactly on the items whose indices are in \<open>S\<close>, the items
  all have a string form and the requested limit is at least 1 (or the input is empty),
  the returned array has the length of the input and is \<open>Rejected\<close> at each index in
  \<open>S\<close> and \<open>Fulfilled\<close> at every other index, under every schedule.
\<close>

theorem rejected_exactly_at_failures:
  assumes "array = [] \<or> 1 \<le> concurrentLimit" and "stringable toStr array"
    and "\<forall>i < length array. (i \<in> S) = fails (mapFn (array ! i) i array)"
  shows "\<exists>r. mapAllSettled sched toStr array mapFn concurrentLimit = Inr r \<and>
           length r = length array \<and>
           (\<forall>i < length array. if i \<in> S then is_rejected (r ! i) else is_fulfilled (r ! i))"
proof -
  let ?r = "map Some (allSettled_map mapFn array)"
  have t: "if fails x then is_rejected (Some (settle x)) else is_fulfilled (Some (settle x))"
    for x :: "'e + ('r, 'e) Promise"
    by (cases x rule: fails.cases) simp_all
  have "if i \<in> S then is_rejected (?r ! i) else is_fulfilled (?r ! i)" if "i < length array" for i
    using that assms(3) t [of "mapFn (array ! i) i array"] by (simp add: allSettled_map_def)
  moreover have "length ?r = length array" by (simp add: allSettled_map_def)
  moreover note mapAllSettled_settles [OF assms(1,2), of sched mapFn]
  ultimately show ?thesis by blast
qed

theorem rejected_exactly_at_failures_witness:
  "([JStr ''x'', JStr ''y'', JStr ''z''] = [] \<or> (1 :: int) \<le> 2) \<and>
   stringable js_ToString [JStr ''x'', JStr ''y'', JStr ''z''] \<and>
   (\<exists>r. mapAllSettled [1, 0] js_ToString [JStr ''x'', JStr ''y'', JStr ''z'']
           (\<lambda>v i a. if i = 1 then Inl ''boom'' else Inr (Resolves (2 * i))
              :: string + (nat, string) Promise) 2 = Inr r \<and>
         length r = 3 \<and> is_fulfilled (r ! 0) \<and> is_rejected (r ! 1) \<and> is_fulfilled (r ! 2))"
proof -
  let ?a = "[JStr ''x'', JStr ''y'', JStr ''z'']"
  let ?f = "\<lambda>v i a. if i = 1 then Inl ''boom'' else Inr (Resolves (2 * i))
              :: string + (nat, string) Promise"
  have h: "\<forall>i < length ?a. (i \<in> {1}) = fails (?f (?a ! i) i ?a)"
    by (auto simp: numeral_3_eq_3 less_Suc_eq)
  have l: "?a = [] \<or> (1 :: int) \<le> 2" by simp
  have s: "stringable js_ToString ?a" by simp
  from rejected_exactly_at_failures
         [where array = ?a and concurrentLimit = 2 and S = "{1}" and toStr = js_ToString
            and mapFn = ?f and sched = "[1, 0]", OF l s h]
  obtain r where r: "mapAllSettled [1, 0] js_ToString ?a ?f 2 = Inr r"
    and len: "length r = 3"
    and v: "\<forall>i < 3. if i \<in> {1} then is_rejected (r ! i) else is_fulfilled (r ! i)"
    by auto
  from v [rule_format, of 0] v [rule_format, of 1] v [rule_format, of 2]
  have "is_fulfilled (r ! 0)" "is_rejected (r ! 1)" "is_fulfilled (r ! 2)"
    by simp_all
  with r len l s show ?thesis by blast
qed

text \<open>
  With a requested limit of 0 and a transform that fails on the second of three items,
  the returned array is empty: every result is missing. With a \<^verbatim>\<open>Symbol\<close> as the second
  of three items, a transform that fails on no item and a limit of 3, the call rejects
  and returns no array at all.
\<close>

theorem results_missing_for_zero_limit_or_symbol:
  "\<not> (\<exists>r. mapAllSettled [] js_ToString [JStr ''x'', JStr ''y'', JStr ''z'']
             (\<lambda>v i a. if i = 1 then Inl ''boom'' else Inr (Resolves (2 * i))
                :: string + (nat, string) Promise) 0 = Inr r \<and>
           length r = length [JStr ''x'', JStr ''y'', JStr ''z''] \<and>
           (\<forall>i < length [JStr ''x'', JStr ''y'', JStr ''z''].
              if i \<in> {1} then is_rejected (r ! i) else is_fulfilled (r ! i)))
   \<and>
   \<not> (\<exists>r. mapAllSettled [] js_ToString [JStr ''x'', JSym ''a'', JStr ''z'']
             (\<lambda>v i a. Inr (Resolves (2 * i)) :: string + (nat, string) Promise) 3 = Inr r \<and>
           length r = length [JStr ''x'', JSym ''a'', JStr ''z''] \<and>
           (\<forall>i < length [JStr ''x'', JSym ''a'', JStr ''z''].
              if i \<in> {} then is_rejected (r ! i) else is_fulfilled (r ! i)))"
proof -
  have "mapAllSettled [] js_ToString [JStr ''x'', JStr ''y'', JStr ''z'']
          (\<lambda>v i a. if i = 1 then Inl ''boom'' else Inr (Resolves (2 * i))
             :: string + (nat, string) Promise) 0 = Inr []"
    by code_simp
  moreover have "mapAllSettled [] js_ToString [JStr ''x'', JSym ''a'', JStr ''z'']
          (\<lambda>v i a. Inr (Resolves (2 * i)) :: string + (nat, string) Promise) 3
        = Inl (Uncaught ''TypeError'')"
    by code_simp
  ultimately show ?thesis by simp
qed

text \<open>
  C7. Successive calls of \<^verbatim>\<open>next()\<close> on the generator of \<^verbatim>\<open>mapParams\<close> answer with the
  items \<open>(array[i], i, array)\<close> for \<open>i = 0, 1, ...\<close> in this order, each index once and
  none skipped, as long as \<open>i\<close> is below the length; every later call answers that the
  generator is done.
\<close>

theorem mapParams_hands_out_each_item_once:
  "nexts array k (mapParams array) =
     map (\<lambda>i. if i < length array then Some (array ! i, i, array) else None) [0..<k]"
  using nexts_gen_at [of 0 array k] by (simp add: mapParams_def)

text \<open>
  C8. On the empty input, whatever the requested limit, \<^verbatim>\<open>mapAllSettled\<close> returns the
  empty array and leaves the state as it found it: no generator has been made, no worker
  is in \<^verbatim>\<open>workers\<close>, and the console is empty, so no worker was started and no item
  was given to the transform.
\<close>

theorem empty_input_returns_at_once:
  "mapAllSettled_run sched toStr [] mapFn concurrentLimit =
     (Inr [], \<lparr>arr = [], gen = None, result = [], workers = [], console = []\<rparr>)"
  by (rule run_empty)

text \<open>
  C9. The input array after the call is the input array before it, whatever the
  requested limit and the schedule, also when the call fails. (The transform of the
  model is a function of its arguments and so cannot write to the array.)
\<close>

theorem input_sequence_unchanged:
  "arr (snd (mapAllSettled_run sched toStr array mapFn concurrentLimit)) = array"
  by (rule run_arr)

text \<open>
  C10. On a non-empty input with a requested limit of exactly 0, \<^verbatim>\<open>mapAllSettled\<close>
  returns the empty array. No worker is in \<^verbatim>\<open>workers\<close>, the generator has not been
  started, and the only console output is the line of \<^verbatim>\<open>Initialized 0 workers\<close>: the
  transform was not called.
\<close>

theorem zero_limit_returns_empty:
  "array \<noteq> [] \<Longrightarrow>
     mapAllSettled_run sched toStr array mapFn 0 =
       (Inr [], \<lparr>arr = array, gen = Some SuspendedStart, result = [], workers = [],
                 console = [LogInitialized 0]\<rparr>)"
  by (rule run_zero)

theorem zero_limit_returns_empty_witness:
  "[JStr ''x'', JSym ''a'', JStr ''z''] \<noteq> [] \<and>
   mapAllSettled_run [2, 1] js_ToString [JStr ''x'', JSym ''a'', JStr ''z'']
     (\<lambda>v i a. Inr (Resolves (2 * i)) :: string + (nat, string) Promise) 0 =
       (Inr [], \<lparr>arr = [JStr ''x'', JSym ''a'', JStr ''z''], gen = Some SuspendedStart,
                 result = [], workers = [], console = [LogInitialized 0]\<rparr>)"
  using zero_limit_returns_empty [of "[JStr ''x'', JSym ''a'', JStr ''z'']" "[2, 1]" js_ToString
    "\<lambda>v i a. Inr (Resolves (2 * i)) :: string + (nat, string) Promise"]
  by simp

end
